theory Spec2Isabelle
  imports Complex_Main "HOL-Library.AList"
begin

section \<open>Data model of the notebook\<close>

text \<open>
  The notebook \<^verbatim>\<open>dt_base.ipynb\<close> works on three tables (references, nodes, edges), each
  indexed by a unique id column, and on columns of random draws with one row per Monte
  Carlo sample. Node ids are strings (the target is looked up as \<^verbatim>\<open>'tq'\<close>); reference
  and edge ids are numbers.

  A column of draws (a pandas Series or a numpy array of length \<^verbatim>\<open>numSamples\<close>) is a
  function from the sample index to its value. All arithmetic of the notebook on such
  columns is elementwise, so \<^verbatim>\<open>a * b\<close> on columns is \<open>\<lambda>s. a s * b s\<close>, and a Python
  scalar combined with a column is broadcast to every sample. Floating-point numbers
  are modelled by exact reals.
\<close>

type_synonym node_id = string
type_synonym ref_id = nat
type_synonym edge_id = nat
type_synonym vec = "nat \<Rightarrow> real"
type_synonym pair = "node_id \<times> node_id"

text \<open>
  One row of the edge table: \<^verbatim>\<open>edges.parent_id\<close>, \<^verbatim>\<open>edges.child_id\<close>, \<^verbatim>\<open>edges.ref_id\<close>.
  The bound columns (\<^verbatim>\<open>m2A\<close>, \<^verbatim>\<open>m2B\<close>, \<^verbatim>\<open>m3A\<close>, \<^verbatim>\<open>m3B\<close>) are read only by the random
  draws, which enter the model as the drawn columns themselves.
\<close>

record edge_row =
  parent_id :: node_id
  child_id :: node_id
  ref_id :: ref_id

text \<open>
  The edge table in index order. \<^verbatim>\<open>for edge_id in edges.index\<close> visits the entries in
  order, and \<^verbatim>\<open>edges.parent_id[edge_id]\<close> reads the row of that id.
\<close>

type_synonym edge_table = "(edge_id \<times> edge_row) list"

datatype error = KeyError

section \<open>Aggregating edges\<close>

text \<open>\<^verbatim>\<open>d.get(k, 0)\<close> on a dictionary of columns: the scalar 0 is broadcast.\<close>

definition get0 :: "('k \<rightharpoonup> vec) \<Rightarrow> 'k \<Rightarrow> vec" where
  "get0 d k = (case d k of None \<Rightarrow> (\<lambda>_. 0) | Some v \<Rightarrow> v)"

text \<open>The (parent, child) tuple of an edge row.\<close>

definition edge_of :: "edge_row \<Rightarrow> pair" where
  "edge_of r = (parent_id r, child_id r)"

text \<open>
  \<^verbatim>\<open>
  normWeights = {}
  for edge_id in edges.index:
      edge = (edges.parent_id[edge_id], edges.child_id[edge_id])
      normWeights[edge] = normWeights.get(edge, 0) + m1[edges.ref_id[edge_id]] * m3[edge_id]
  \<close>
  \<^verbatim>\<open>m1\<close> has one column per reference id of the reference table, so \<^verbatim>\<open>m1[...]\<close> raises
  KeyError for an edge whose reference is not in that table. \<^verbatim>\<open>m2\<close> and \<^verbatim>\<open>m3\<close> have one
  column per edge id of the edge table itself.
\<close>

fun normWeights_loop ::
  "(ref_id \<rightharpoonup> vec) \<Rightarrow> (edge_id \<Rightarrow> vec) \<Rightarrow> edge_table \<Rightarrow> (pair \<rightharpoonup> vec) \<Rightarrow> error + (pair \<rightharpoonup> vec)"
where
  "normWeights_loop m1 m3 [] nw = Inr nw"
| "normWeights_loop m1 m3 ((eid, r) # es) nw =
     (case m1 (ref_id r) of
        None \<Rightarrow> Inl KeyError
      | Some a \<Rightarrow>
          normWeights_loop m1 m3 es
            (nw(edge_of r \<mapsto> (\<lambda>s. get0 nw (edge_of r) s + a s * m3 eid s))))"

definition normWeights ::
  "(ref_id \<rightharpoonup> vec) \<Rightarrow> (edge_id \<Rightarrow> vec) \<Rightarrow> edge_table \<Rightarrow> error + (pair \<rightharpoonup> vec)"
where
  "normWeights m1 m3 edges = normWeights_loop m1 m3 edges Map.empty"

text \<open>
  \<^verbatim>\<open>
  weights = {}
  for edge_id in edges.index:
      edge = (edges.parent_id[edge_id], edges.child_id[edge_id])
      weights[edge_id] = (m1[edges.ref_id[edge_id]] * m3[edge_id]) / normWeights[edge]
  \<close>
  Where the divisor is 0 numpy yields \<^verbatim>\<open>inf\<close> or \<^verbatim>\<open>nan\<close> and HOL yields 0; the
  properties below are stated for a nonzero divisor only.
\<close>

fun weights_loop ::
  "(ref_id \<rightharpoonup> vec) \<Rightarrow> (edge_id \<Rightarrow> vec) \<Rightarrow> (pair \<rightharpoonup> vec) \<Rightarrow> edge_table \<Rightarrow>
   (edge_id \<rightharpoonup> vec) \<Rightarrow> error + (edge_id \<rightharpoonup> vec)"
where
  "weights_loop m1 m3 nw [] w = Inr w"
| "weights_loop m1 m3 nw ((eid, r) # es) w =
     (case m1 (ref_id r) of
        None \<Rightarrow> Inl KeyError
      | Some a \<Rightarrow>
          (case nw (edge_of r) of
             None \<Rightarrow> Inl KeyError
           | Some n \<Rightarrow>
               weights_loop m1 m3 nw es (w(eid \<mapsto> (\<lambda>s. (a s * m3 eid s) / n s)))))"

definition weights ::
  "(ref_id \<rightharpoonup> vec) \<Rightarrow> (edge_id \<Rightarrow> vec) \<Rightarrow> (pair \<rightharpoonup> vec) \<Rightarrow> edge_table \<Rightarrow>
   error + (edge_id \<rightharpoonup> vec)"
where
  "weights m1 m3 nw edges = weights_loop m1 m3 nw edges Map.empty"

text \<open>
  \<^verbatim>\<open>
  superEdges = {}
  for edge_id in edges.index:
      edge = (edges.parent_id[edge_id], edges.child_id[edge_id])
      superEdges[edge] = superEdges.get(edge, 0) + weights[edge_id] * m2[edge_id]
  \<close>
  The key order of this dictionary is used later (the graph is built from it), so it is
  an association list in insertion order: assigning to an existing key keeps its place,
  a new key goes to the end.
\<close>

fun superEdges_loop ::
  "(edge_id \<rightharpoonup> vec) \<Rightarrow> (edge_id \<Rightarrow> vec) \<Rightarrow> edge_table \<Rightarrow> (pair \<times> vec) list \<Rightarrow>
   error + (pair \<times> vec) list"
where
  "superEdges_loop w m2 [] se = Inr se"
| "superEdges_loop w m2 ((eid, r) # es) se =
     (case w eid of
        None \<Rightarrow> Inl KeyError
      | Some x \<Rightarrow>
          superEdges_loop w m2 es
            (AList.update (edge_of r) (\<lambda>s. get0 (map_of se) (edge_of r) s + x s * m2 eid s) se))"

definition superEdges ::
  "(edge_id \<rightharpoonup> vec) \<Rightarrow> (edge_id \<Rightarrow> vec) \<Rightarrow> edge_table \<Rightarrow> error + (pair \<times> vec) list"
where
  "superEdges w m2 edges = superEdges_loop w m2 edges []"

text \<open>The three cells in sequence, from the draws to the super-edges.\<close>

definition aggregate ::
  "(ref_id \<rightharpoonup> vec) \<Rightarrow> (edge_id \<Rightarrow> vec) \<Rightarrow> (edge_id \<Rightarrow> vec) \<Rightarrow> edge_table \<Rightarrow>
   error + ((edge_id \<rightharpoonup> vec) \<times> (pair \<times> vec) list)"
where
  "aggregate m1 m2 m3 edges =
     (case normWeights m1 m3 edges of
        Inl e \<Rightarrow> Inl e
      | Inr nw \<Rightarrow>
          (case weights m1 m3 nw edges of
             Inl e \<Rightarrow> Inl e
           | Inr w \<Rightarrow>
               (case superEdges w m2 edges of
                  Inl e \<Rightarrow> Inl e
                | Inr se \<Rightarrow> Inr (w, se))))"

text \<open>
  The edges of the table that contribute to one (parent, child) pair, and the raw
  weight \<^verbatim>\<open>m1[ref] * m3[edge_id]\<close> of a table entry at one sample.
\<close>

definition contributing :: "edge_table \<Rightarrow> pair \<Rightarrow> edge_table" where
  "contributing edges pc = filter (\<lambda>e. edge_of (snd e) = pc) edges"

definition raw_weight :: "(ref_id \<rightharpoonup> vec) \<Rightarrow> (edge_id \<Rightarrow> vec) \<Rightarrow> nat \<Rightarrow> edge_id \<times> edge_row \<Rightarrow> real" where
  "raw_weight m1 m3 s e = (case m1 (ref_id (snd e)) of None \<Rightarrow> 0 | Some a \<Rightarrow> a s * m3 (fst e) s)"

section \<open>The directed graph\<close>

text \<open>
  \<^verbatim>\<open>
  G = nx.DiGraph()
  G.add_edges_from(superEdges)
  \<close>
  A networkx \<^verbatim>\<open>DiGraph\<close> keeps its nodes, and the successors of each node, in
  dictionaries, hence in insertion order without repetition. \<^verbatim>\<open>add_edge(u, v)\<close> adds
  \<open>u\<close>, then \<open>v\<close>, when they are new, and then records \<open>v\<close> among the successors of
  \<open>u\<close>. Nothing is validated: any pair of node ids is accepted.
\<close>

record DiGraph =
  g_nodes :: "node_id list"
  g_succ :: "node_id \<Rightarrow> node_id list"

definition empty_graph :: DiGraph where
  "empty_graph = \<lparr>g_nodes = [], g_succ = (\<lambda>_. [])\<rparr>"

definition add_node :: "node_id \<Rightarrow> DiGraph \<Rightarrow> DiGraph" where
  "add_node n G = (if n \<in> set (g_nodes G) then G else G\<lparr>g_nodes := g_nodes G @ [n]\<rparr>)"

definition add_edge :: "DiGraph \<Rightarrow> pair \<Rightarrow> DiGraph" where
  "add_edge G e =
     (case e of (u, v) \<Rightarrow>
        let G' = add_node v (add_node u G)
        in G'\<lparr>g_succ := (g_succ G')(u := (if v \<in> set (g_succ G' u) then g_succ G' u
                                            else g_succ G' u @ [v]))\<rparr>)"

definition add_edges_from :: "DiGraph \<Rightarrow> pair list \<Rightarrow> DiGraph" where
  "add_edges_from G es = foldl add_edge G es"

text \<open>Iterating a dictionary yields its keys: the graph is built from the pairs.\<close>

definition G_of :: "(pair \<times> vec) list \<Rightarrow> DiGraph" where
  "G_of se = add_edges_from empty_graph (map fst se)"

text \<open>\<^verbatim>\<open>G.edges\<close>: for every node in order, its out-edges in order.\<close>

definition G_edges :: "DiGraph \<Rightarrow> pair list" where
  "G_edges G = concat (map (\<lambda>u. map (\<lambda>v. (u, v)) (g_succ G u)) (g_nodes G))"

text \<open>
  \<^verbatim>\<open>G.reverse()\<close> copies the nodes into a new graph and adds every edge of \<^verbatim>\<open>G.edges\<close>
  with its ends swapped; \<^verbatim>\<open>adjacency()\<close> yields every node with its successors.
\<close>

definition reverse :: "DiGraph \<Rightarrow> DiGraph" where
  "reverse G =
     foldl (\<lambda>H e. case e of (u, v) \<Rightarrow> add_edge H (v, u))
       \<lparr>g_nodes = g_nodes G, g_succ = (\<lambda>_. [])\<rparr> (G_edges G)"

definition adjacency :: "DiGraph \<Rightarrow> (node_id \<times> node_id list) list" where
  "adjacency G = map (\<lambda>n. (n, g_succ G n)) (g_nodes G)"

section \<open>Conditional probability tables\<close>

text \<open>
  The pyeda expressions the notebook builds: \<^verbatim>\<open>exprvar(name)\<close> is a \<^verbatim>\<open>Variable\<close>, and
  \<^verbatim>\<open>~exprvar(name)\<close> is a \<^verbatim>\<open>Complement\<close>, which is not an instance of \<^verbatim>\<open>Variable\<close>.
\<close>

datatype expr = Variable node_id | Complement node_id

text \<open>
  \<^verbatim>\<open>
  cptCombos = {}
  for adj in G.reverse().adjacency():
      node = adj[0]
      incoming = list(adj[1].keys())
      bools = []
      tmp = itertools.product([True, False], repeat = len(incoming))
      for t in tmp:
          bools.append(tuple([exprvar(incoming[i]) if t[i] else ~exprvar(incoming[i])
                              for i in range(len(t))]))
      cptCombos[node] = bools
  \<close>
  \<^verbatim>\<open>itertools.product\<close> yields the tuples in lexicographic order, the last position
  changing fastest, which is the order of \<^const>\<open>product_lists\<close>; with \<^verbatim>\<open>repeat = 0\<close> it
  yields the empty tuple alone.
\<close>

definition combo_of :: "node_id list \<Rightarrow> bool list \<Rightarrow> expr list" where
  "combo_of incoming t =
     map (\<lambda>i. if t ! i then Variable (incoming ! i) else Complement (incoming ! i)) [0..<length t]"

definition bools_of :: "node_id list \<Rightarrow> expr list list" where
  "bools_of incoming =
     map (combo_of incoming) (product_lists (replicate (length incoming) [True, False]))"

definition cptCombos :: "DiGraph \<Rightarrow> (node_id \<times> expr list list) list" where
  "cptCombos G =
     foldl (\<lambda>d adj. case adj of (node, incoming) \<Rightarrow> AList.update node (bools_of incoming) d)
       [] (adjacency (reverse G))"

text \<open>
  \<^verbatim>\<open>
  cpts = { node: [] for node in nodes.index }
  for node, combinations in cptCombos.items():
      for combo in combinations:
          tmp = 1
          for parent in combo:
              if isinstance(parent, pyeda.boolalg.expr.Variable):
                  tmp *= (1 - superEdges[parent.name, node])
              cpts[node].extend([1 - leak * tmp, leak * tmp])
  \<close>
  The \<^verbatim>\<open>extend\<close> is in the body of the loop over the parents. Both dictionary reads can
  raise KeyError: \<^verbatim>\<open>superEdges[...]\<close> for a pair that is not a super-edge, and
  \<^verbatim>\<open>cpts[node]\<close> for a graph node that is not in the node table.
\<close>

definition cpts_init :: "node_id list \<Rightarrow> (node_id \<rightharpoonup> vec list)" where
  "cpts_init nodes = map_of (map (\<lambda>node. (node, [])) nodes)"

definition tmp_step :: "(pair \<times> vec) list \<Rightarrow> node_id \<Rightarrow> expr \<Rightarrow> vec \<Rightarrow> error + vec" where
  "tmp_step se node parent tmp =
     (case parent of
        Variable name \<Rightarrow>
          (case map_of se (name, node) of
             None \<Rightarrow> Inl KeyError
           | Some x \<Rightarrow> Inr (\<lambda>s. tmp s * (1 - x s)))
      | Complement name \<Rightarrow> Inr tmp)"

fun parent_loop ::
  "(pair \<times> vec) list \<Rightarrow> vec \<Rightarrow> node_id \<Rightarrow> expr list \<Rightarrow> vec \<Rightarrow> (node_id \<rightharpoonup> vec list) \<Rightarrow>
   error + (node_id \<rightharpoonup> vec list)"
where
  "parent_loop se leak node [] tmp tbl = Inr tbl"
| "parent_loop se leak node (parent # ps) tmp tbl =
     (case tmp_step se node parent tmp of
        Inl e \<Rightarrow> Inl e
      | Inr tmp' \<Rightarrow>
          (case tbl node of
             None \<Rightarrow> Inl KeyError
           | Some l \<Rightarrow>
               parent_loop se leak node ps tmp'
                 (tbl(node \<mapsto> l @ [\<lambda>s. 1 - leak s * tmp' s, \<lambda>s. leak s * tmp' s]))))"

fun combo_loop ::
  "(pair \<times> vec) list \<Rightarrow> vec \<Rightarrow> node_id \<Rightarrow> expr list list \<Rightarrow> (node_id \<rightharpoonup> vec list) \<Rightarrow>
   error + (node_id \<rightharpoonup> vec list)"
where
  "combo_loop se leak node [] tbl = Inr tbl"
| "combo_loop se leak node (combo # cs) tbl =
     (case parent_loop se leak node combo (\<lambda>_. 1) tbl of
        Inl e \<Rightarrow> Inl e
      | Inr tbl' \<Rightarrow> combo_loop se leak node cs tbl')"

fun node_loop ::
  "(pair \<times> vec) list \<Rightarrow> vec \<Rightarrow> (node_id \<times> expr list list) list \<Rightarrow> (node_id \<rightharpoonup> vec list) \<Rightarrow>
   error + (node_id \<rightharpoonup> vec list)"
where
  "node_loop se leak [] tbl = Inr tbl"
| "node_loop se leak ((node, combinations) # rest) tbl =
     (case combo_loop se leak node combinations tbl of
        Inl e \<Rightarrow> Inl e
      | Inr tbl' \<Rightarrow> node_loop se leak rest tbl')"

definition cpts ::
  "(pair \<times> vec) list \<Rightarrow> vec \<Rightarrow> node_id list \<Rightarrow> error + (node_id \<rightharpoonup> vec list)"
where
  "cpts se leak nodes = node_loop se leak (cptCombos (G_of se)) (cpts_init nodes)"

text \<open>
  For the analysis: the successive values of \<^verbatim>\<open>tmp\<close> at the \<^verbatim>\<open>extend\<close> calls of one
  combination (they do not involve the leak), and the pairs built from them.
\<close>

fun tmp_values :: "(pair \<times> vec) list \<Rightarrow> node_id \<Rightarrow> expr list \<Rightarrow> vec \<Rightarrow> vec list" where
  "tmp_values se node [] tmp = []"
| "tmp_values se node (parent # ps) tmp =
     (case tmp_step se node parent tmp of
        Inl e \<Rightarrow> []
      | Inr tmp' \<Rightarrow> tmp' # tmp_values se node ps tmp')"

definition pairs_of :: "vec \<Rightarrow> vec list \<Rightarrow> vec list" where
  "pairs_of leak ts = concat (map (\<lambda>t. [\<lambda>s. 1 - leak s * t s, \<lambda>s. leak s * t s]) ts)"

definition entries_of :: "(pair \<times> vec) list \<Rightarrow> node_id \<Rightarrow> expr list list \<Rightarrow> vec list" where
  "entries_of se node cs = concat (map (\<lambda>c. tmp_values se node c (\<lambda>_. 1)) cs)"

text \<open>
  The parents of a node as the CPT cells see them: the \<^verbatim>\<open>incoming\<close> list of the node in
  the reversed graph.
\<close>

definition parents :: "(pair \<times> vec) list \<Rightarrow> node_id \<Rightarrow> node_id list" where
  "parents se node = g_succ (reverse (G_of se)) node"

section \<open>The belief network\<close>

text \<open>
  The pybbn objects the notebook creates. A \<^verbatim>\<open>BbnNode\<close> is a mutable object that the
  dictionary \<^verbatim>\<open>bbnNodes\<close> and the network \<^verbatim>\<open>dt_base\<close> both refer to, so the objects live
  in a store and the two containers hold addresses.
\<close>

record bbn_variable =
  var_id :: nat
  var_name :: node_id
  var_values :: "string list"

record BbnNode =
  variable :: bbn_variable
  probs :: "real list"

type_synonym addr = nat
type_synonym heap = "addr \<rightharpoonup> BbnNode"

datatype EdgeType = UNDIRECTED | DIRECTED

record Edge =
  edge_i :: node_id
  edge_j :: node_id
  edge_type :: EdgeType

text \<open>
  \<^verbatim>\<open>
  bbnNodes = { node.Index : BbnNode(Variable(i, node.Index, ['Good', 'Bad']), [1, 0])
               for i, node in enumerate(nodes.itertuples()) }
  \<close>
  The object made for row \<open>i\<close> is stored at address \<open>i\<close>.
\<close>

definition new_node :: "nat \<Rightarrow> node_id \<Rightarrow> BbnNode" where
  "new_node i name =
     \<lparr>variable = \<lparr>var_id = i, var_name = name, var_values = [''Good'', ''Bad'']\<rparr>,
      probs = [1, 0]\<rparr>"

definition bbnNodes_heap :: "node_id list \<Rightarrow> heap" where
  "bbnNodes_heap nodes = map_of (map (\<lambda>(i, name). (i, new_node i name)) (enumerate 0 nodes))"

definition bbnNodes :: "node_id list \<Rightarrow> (node_id \<times> addr) list" where
  "bbnNodes nodes =
     foldl (\<lambda>d row. case row of (i, name) \<Rightarrow> AList.update name i d) [] (enumerate 0 nodes)"

text \<open>\<^verbatim>\<open>bbnEdges = [ Edge(a, b, EdgeType.DIRECTED) for a, b in superEdges]\<close>\<close>

definition bbnEdges :: "(pair \<times> vec) list \<Rightarrow> Edge list" where
  "bbnEdges se =
     map (\<lambda>k. case k of (a, b) \<Rightarrow> \<lparr>edge_i = a, edge_j = b, edge_type = DIRECTED\<rparr>) (map fst se)"

text \<open>
  \<^verbatim>\<open>
  dt_base = Bbn()
  for node in bbnNodes.values():
    dt_base.add_node(node)
  for edge in bbnEdges:
    dt_base.add_edge
  \<close>
  \<^verbatim>\<open>add_node\<close> stores the node under its variable's id. The body of the second loop is
  the expression \<^verbatim>\<open>dt_base.add_edge\<close>: it reads the bound method and does not call it,
  so an iteration leaves the network as it is.
\<close>

record Bbn =
  bbn_nodes :: "nat \<rightharpoonup> addr"
  bbn_edges :: "Edge list"

definition Bbn_new :: Bbn where
  "Bbn_new = \<lparr>bbn_nodes = Map.empty, bbn_edges = []\<rparr>"

definition bbn_add_node :: "heap \<Rightarrow> Bbn \<Rightarrow> addr \<Rightarrow> Bbn" where
  "bbn_add_node h b a =
     (case h a of
        None \<Rightarrow> b
      | Some nd \<Rightarrow> b\<lparr>bbn_nodes := (bbn_nodes b)(var_id (variable nd) \<mapsto> a)\<rparr>)"

definition dt_base :: "heap \<Rightarrow> (node_id \<times> addr) list \<Rightarrow> Edge list \<Rightarrow> Bbn" where
  "dt_base h bn es = foldl (\<lambda>b edge. b) (foldl (bbn_add_node h) Bbn_new (map snd bn)) es"

section \<open>The inference loop\<close>

text \<open>
  \<^verbatim>\<open>
  target = bbnNodes['tq']
  target_probs = []
  for sample in range(numSamples):
    for node_id, node in bbnNodes.items():
      probs = [p[sample] for p in cpts[node_id]] if cpts[node_id] else [1, 0]
      node.probs = probs
    join_tree = InferenceController.apply(dt_base)
    target_probs.append(join_tree.get_bbn_potential(target))
  \<close>
  The junction-tree inference is pybbn's; it is a parameter \<open>infer\<close> of the model, a
  function of the store, the network and the target that yields the potential appended
  to \<^verbatim>\<open>target_probs\<close>.
\<close>

definition target_lookup :: "(node_id \<times> addr) list \<Rightarrow> error + addr" where
  "target_lookup bn = (case map_of bn ''tq'' of None \<Rightarrow> Inl KeyError | Some a \<Rightarrow> Inr a)"

definition set_probs :: "heap \<Rightarrow> addr \<Rightarrow> real list \<Rightarrow> heap" where
  "set_probs h a p = (case h a of None \<Rightarrow> h | Some nd \<Rightarrow> h(a \<mapsto> nd\<lparr>probs := p\<rparr>))"

definition probs_at :: "vec list \<Rightarrow> nat \<Rightarrow> real list" where
  "probs_at l sample = (if l \<noteq> [] then map (\<lambda>p. p sample) l else [1, 0])"

fun install_loop ::
  "(node_id \<rightharpoonup> vec list) \<Rightarrow> nat \<Rightarrow> (node_id \<times> addr) list \<Rightarrow> heap \<Rightarrow> error + heap"
where
  "install_loop tbl sample [] h = Inr h"
| "install_loop tbl sample ((node_id, node) # rest) h =
     (case tbl node_id of
        None \<Rightarrow> Inl KeyError
      | Some l \<Rightarrow> install_loop tbl sample rest (set_probs h node (probs_at l sample)))"

record 'p run_state =
  st_heap :: heap
  st_bbn :: Bbn
  target_probs :: "'p list"

fun sample_loop ::
  "(heap \<Rightarrow> Bbn \<Rightarrow> addr \<Rightarrow> 'p) \<Rightarrow> (node_id \<rightharpoonup> vec list) \<Rightarrow> (node_id \<times> addr) list \<Rightarrow> addr \<Rightarrow>
   nat list \<Rightarrow> 'p run_state \<Rightarrow> error + 'p run_state"
where
  "sample_loop infer tbl bn target [] st = Inr st"
| "sample_loop infer tbl bn target (sample # rest) st =
     (case install_loop tbl sample bn (st_heap st) of
        Inl e \<Rightarrow> Inl e
      | Inr h \<Rightarrow>
          sample_loop infer tbl bn target rest
            (st\<lparr>st_heap := h, target_probs := target_probs st @ [infer h (st_bbn st) target]\<rparr>))"

definition run_inference ::
  "(heap \<Rightarrow> Bbn \<Rightarrow> addr \<Rightarrow> 'p) \<Rightarrow> (node_id \<rightharpoonup> vec list) \<Rightarrow> node_id list \<Rightarrow> (pair \<times> vec) list \<Rightarrow>
   nat \<Rightarrow> error + 'p run_state"
where
  "run_inference infer tbl nodes se numSamples =
     (let h = bbnNodes_heap nodes;
          bn = bbnNodes nodes;
          b = dt_base h bn (bbnEdges se)
      in case target_lookup bn of
           Inl e \<Rightarrow> Inl e
         | Inr target \<Rightarrow>
             sample_loop infer tbl bn target [0..<numSamples]
               \<lparr>st_heap = h, st_bbn = b, target_probs = []\<rparr>)"

text \<open>
  For the analysis: every \<^verbatim>\<open>Variable\<close> of a combination names a parent whose super-edge
  into the node exists, so that the dictionary read in the parent loop succeeds.
\<close>

definition names_ok :: "(pair \<times> vec) list \<Rightarrow> node_id \<Rightarrow> expr list \<Rightarrow> bool" where
  "names_ok se node combo =
     list_all (\<lambda>p. case p of Variable name \<Rightarrow> map_of se (name, node) \<noteq> None | Complement name \<Rightarrow> True) combo"

section \<open>Example inputs\<close>

text \<open>
  A small model run used to evaluate the definitions: references 0 and 1, three edges
  (two of them for the pair a \<rightarrow> tq, one for b \<rightarrow> tq), and the node table a, b, tq.
  With the draws below the super-edge strengths are 1/2 for a \<rightarrow> tq and 1/4 for b \<rightarrow> tq.
  \<open>neg_m3\<close> is a draw of m3 with a negative value, and \<open>ex_infer\<close> stands in for the
  inference of pybbn: it returns the first two entries of the target's \<^verbatim>\<open>probs\<close>.
\<close>

definition ex_edges :: edge_table where
  "ex_edges =
     [(0, \<lparr>parent_id = ''a'', child_id = ''tq'', ref_id = 0\<rparr>),
      (1, \<lparr>parent_id = ''a'', child_id = ''tq'', ref_id = 0\<rparr>),
      (2, \<lparr>parent_id = ''b'', child_id = ''tq'', ref_id = 1\<rparr>)]"

definition ex_m1 :: "ref_id \<rightharpoonup> vec" where
  "ex_m1 = [0 \<mapsto> (\<lambda>_. 1/2), 1 \<mapsto> (\<lambda>_. 1)]"

definition ex_m2 :: "edge_id \<Rightarrow> vec" where
  "ex_m2 = (\<lambda>e _. if e = 0 then 1/5 else if e = 1 then 3/5 else 1/4)"

definition ex_m3 :: "edge_id \<Rightarrow> vec" where
  "ex_m3 = (\<lambda>e _. if e = 0 then 1 else if e = 1 then 3 else 1)"


definition ex_se :: "(pair \<times> vec) list" where
  "ex_se = [((''a'', ''tq''), \<lambda>_. 1/2), ((''b'', ''tq''), \<lambda>_. 1/4)]"

definition ex_leak :: vec where
  "ex_leak = (\<lambda>_. 9/10)"

definition ex_nodes :: "node_id list" where
  "ex_nodes = [''a'', ''b'', ''tq'']"

definition ex_infer :: "heap \<Rightarrow> Bbn \<Rightarrow> addr \<Rightarrow> real list" where
  "ex_infer h b t = (case h t of None \<Rightarrow> [] | Some nd \<Rightarrow> take 2 (probs nd))"

section \<open>Properties of the edge aggregation\<close>

text \<open>
  Each loop either stops with KeyError or returns a dictionary whose entries are given
  in closed form: the sum of the raw weights of a pair, the raw weight of an edge
  divided by that sum, and the weighted sum of the m2 draws of a pair.
\<close>

lemma normWeights_loop_dom:
  "normWeights_loop m1 m3 es nw = Inr nw' \<Longrightarrow> e \<in> set es \<Longrightarrow> m1 (ref_id (snd e)) \<noteq> None"
  by (induction m1 m3 es nw rule: normWeights_loop.induct) (auto split: option.splits)

lemma normWeights_loop_total:
  "(\<forall>e \<in> set es. m1 (ref_id (snd e)) \<noteq> None) \<Longrightarrow> \<exists>nw'. normWeights_loop m1 m3 es nw = Inr nw'"
  by (induction m1 m3 es nw rule: normWeights_loop.induct) (auto split: option.splits)

lemma normWeights_loop_value:
  "normWeights_loop m1 m3 es nw = Inr nw' \<Longrightarrow>
   nw' pc = (if contributing es pc = [] then nw pc
             else Some (\<lambda>s. get0 nw pc s + (\<Sum>e\<leftarrow>contributing es pc. raw_weight m1 m3 s e)))"
proof (induction m1 m3 es nw rule: normWeights_loop.induct)
  case (1 m1 m3 nw)
  then show ?case by (simp add: contributing_def)
next
  case (2 m1 m3 eid r es nw)
  from "2.prems" obtain a where a: "m1 (ref_id r) = Some a"
    by (auto split: option.splits)
  let ?nw1 = "nw(edge_of r \<mapsto> (\<lambda>s. get0 nw (edge_of r) s + a s * m3 eid s))"
  from "2.prems" a have run: "normWeights_loop m1 m3 es ?nw1 = Inr nw'" by simp
  note ih = "2.IH"[OF a run]
  show ?case
  proof (cases "edge_of r = pc")
    case True
    then show ?thesis
      using ih a by (auto simp: contributing_def get0_def raw_weight_def[of _ _ _ "(eid, r)"] fun_eq_iff)
  next
    case False
    then show ?thesis
      using ih by (auto simp: contributing_def get0_def)
  qed
qed

lemma weights_loop_other:
  "weights_loop m1 m3 nw es w = Inr w' \<Longrightarrow> eid \<notin> fst ` set es \<Longrightarrow> w' eid = w eid"
  by (induction m1 m3 nw es w rule: weights_loop.induct) (auto split: option.splits)


lemma weights_loop_total:
  "(\<forall>e \<in> set es. m1 (ref_id (snd e)) \<noteq> None \<and> nw (edge_of (snd e)) \<noteq> None) \<Longrightarrow>
   \<exists>w'. weights_loop m1 m3 nw es w = Inr w'"
  by (induction m1 m3 nw es w rule: weights_loop.induct) (auto split: option.splits)

lemma weights_loop_dom:
  "weights_loop m1 m3 nw es w = Inr w' \<Longrightarrow> e \<in> set es \<Longrightarrow> w' (fst e) \<noteq> None"
proof (induction m1 m3 nw es w arbitrary: e rule: weights_loop.induct)
  case (1 m1 m3 nw w)
  then show ?case by simp
next
  case (2 m1 m3 nw eid r es w)
  from "2.prems"(1) obtain a n where a: "m1 (ref_id r) = Some a" and n: "nw (edge_of r) = Some n"
    by (auto split: option.splits)
  let ?w1 = "w(eid \<mapsto> (\<lambda>s. (a s * m3 eid s) / n s))"
  from "2.prems"(1) a n have run: "weights_loop m1 m3 nw es ?w1 = Inr w'" by simp
  show ?case
  proof (cases "fst e \<in> fst ` set es")
    case True
    then obtain e' where "e' \<in> set es" "fst e' = fst e" by auto
    with "2.IH"[OF a n run] show ?thesis by metis
  next
    case False
    with "2.prems"(2) have "fst e = eid" by force
    with weights_loop_other[OF run False] show ?thesis by simp
  qed
qed

lemma superEdges_loop_value:
  "superEdges_loop w m2 es se = Inr se' \<Longrightarrow>
   map_of se' pc = (if contributing es pc = [] then map_of se pc
             else Some (\<lambda>s. get0 (map_of se) pc s + (\<Sum>e\<leftarrow>contributing es pc. get0 w (fst e) s * m2 (fst e) s)))"
proof (induction w m2 es se rule: superEdges_loop.induct)
  case (1 w m2 se)
  then show ?case by (simp add: contributing_def)
next
  case (2 w m2 eid r es se)
  from "2.prems" obtain x where x: "w eid = Some x"
    by (auto split: option.splits)
  let ?se1 = "AList.update (edge_of r) (\<lambda>s. get0 (map_of se) (edge_of r) s + x s * m2 eid s) se"
  from "2.prems" x have run: "superEdges_loop w m2 es ?se1 = Inr se'" by simp
  note ih = "2.IH"[OF x run]
  show ?case
  proof (cases "edge_of r = pc")
    case True
    then show ?thesis
      using ih x by (auto simp: contributing_def get0_def update_conv' fun_eq_iff)
  next
    case False
    then show ?thesis
      using ih by (auto simp: contributing_def get0_def update_conv')
  qed
qed

lemma superEdges_loop_total:
  "(\<forall>e \<in> set es. w (fst e) \<noteq> None) \<Longrightarrow> \<exists>se'. superEdges_loop w m2 es se = Inr se'"
  by (induction w m2 es se rule: superEdges_loop.induct) (auto split: option.splits)

lemma aggregate_Inr:
  assumes "aggregate m1 m2 m3 edges = Inr (w, se)"
  obtains nw where "normWeights_loop m1 m3 edges Map.empty = Inr nw"
    and "weights_loop m1 m3 nw edges Map.empty = Inr w"
    and "superEdges_loop w m2 edges [] = Inr se"
  using assms
  by (auto simp: aggregate_def normWeights_def weights_def superEdges_def split: sum.splits)



lemma aggregate_no_pair:
  assumes agg: "aggregate m1 m2 m3 edges = Inr (w, se)"
      and ne: "contributing edges pc = []"
  shows "map_of se pc = None"
proof -
  from agg obtain nw where se: "superEdges_loop w m2 edges [] = Inr se"
    by (rule aggregate_Inr)
  from superEdges_loop_value[OF se, of pc] ne show ?thesis by simp
qed

text \<open>The aggregation succeeds as soon as every edge names a reference of the table.\<close>

lemma aggregate_total:
  assumes refs: "\<forall>e \<in> set edges. m1 (ref_id (snd e)) \<noteq> None"
  shows "\<exists>w se. aggregate m1 m2 m3 edges = Inr (w, se)"
proof -
  from normWeights_loop_total[OF refs] obtain nw
    where nw: "normWeights_loop m1 m3 edges Map.empty = Inr nw" by blast
  have "nw (edge_of (snd e)) \<noteq> None" if "e \<in> set edges" for e
  proof -
    from that have "contributing edges (edge_of (snd e)) \<noteq> []"
      by (auto simp: contributing_def filter_empty_conv)
    with normWeights_loop_value[OF nw, of "edge_of (snd e)"] show ?thesis by simp
  qed
  with refs have "\<forall>e \<in> set edges. m1 (ref_id (snd e)) \<noteq> None \<and> nw (edge_of (snd e)) \<noteq> None"
    by simp
  from weights_loop_total[OF this] obtain w
    where w: "weights_loop m1 m3 nw edges Map.empty = Inr w" by blast
  have "\<forall>e \<in> set edges. w (fst e) \<noteq> None" using weights_loop_dom[OF w] by blast
  from superEdges_loop_total[OF this] obtain se
    where se: "superEdges_loop w m2 edges [] = Inr se" by blast
  from nw w se show ?thesis
    by (simp add: aggregate_def normWeights_def weights_def superEdges_def)
qed




lemmas agg_defs = aggregate_def normWeights_def weights_def superEdges_def get0_def edge_of_def



text \<open>The super-edges of the example run are those used in the later examples.\<close>

lemma ex_aggregate_value:
  "case aggregate ex_m1 ex_m2 ex_m3 ex_edges of
     Inl e \<Rightarrow> False
   | Inr (w, se) \<Rightarrow> map (\<lambda>(k, v). (k, v 0)) se = map (\<lambda>(k, v). (k, v 0)) ex_se"
  by (simp add: agg_defs ex_edges_def ex_m1_def ex_m2_def ex_m3_def ex_se_def)




section \<open>Properties of the graph\<close>

lemma add_node_nodes: "set (g_nodes (add_node n G)) = insert n (set (g_nodes G))"
  by (auto simp: add_node_def)

lemma add_node_succ: "g_succ (add_node n G) = g_succ G"
  by (simp add: add_node_def)

lemma add_node_distinct: "distinct (g_nodes G) \<Longrightarrow> distinct (g_nodes (add_node n G))"
  by (simp add: add_node_def)

lemma add_node_member: "n \<in> set (g_nodes G) \<Longrightarrow> add_node n G = G"
  by (simp add: add_node_def)

lemma add_edge_nodes: "set (g_nodes (add_edge G (u, v))) = insert u (insert v (set (g_nodes G)))"
  by (auto simp: add_edge_def Let_def add_node_nodes)

lemma add_edge_distinct: "distinct (g_nodes G) \<Longrightarrow> distinct (g_nodes (add_edge G (u, v)))"
  by (simp add: add_edge_def Let_def add_node_distinct)

lemma add_edge_nodes_same:
  "u \<in> set (g_nodes G) \<Longrightarrow> v \<in> set (g_nodes G) \<Longrightarrow> g_nodes (add_edge G (u, v)) = g_nodes G"
  by (simp add: add_edge_def Let_def add_node_member)

lemma add_edge_succ_set:
  "set (g_succ (add_edge G (u, v)) x) = (if x = u then insert v (set (g_succ G u)) else set (g_succ G x))"
  by (auto simp: add_edge_def Let_def add_node_succ)

lemma add_edge_succ_distinct:
  "distinct (g_succ G x) \<Longrightarrow> distinct (g_succ (add_edge G (u, v)) x)"
  by (auto simp: add_edge_def Let_def add_node_succ)

lemma add_edges_from_nodes:
  "set (g_nodes (add_edges_from G es)) = set (g_nodes G) \<union> fst ` set es \<union> snd ` set es"
  unfolding add_edges_from_def
proof (induction es arbitrary: G)
  case Nil
  then show ?case by simp
next
  case (Cons e es)
  obtain u v where e: "e = (u, v)" by (cases e)
  show ?case using Cons.IH[of "add_edge G e"] by (auto simp: e add_edge_nodes)
qed

lemma add_edges_from_distinct:
  "distinct (g_nodes G) \<Longrightarrow> distinct (g_nodes (add_edges_from G es))"
  unfolding add_edges_from_def
proof (induction es arbitrary: G)
  case Nil
  then show ?case by simp
next
  case (Cons e es)
  obtain u v where e: "e = (u, v)" by (cases e)
  show ?case using Cons by (simp add: e add_edge_distinct)
qed

lemma add_edges_from_succ_set:
  "set (g_succ (add_edges_from G es) x) = set (g_succ G x) \<union> {v. (x, v) \<in> set es}"
  unfolding add_edges_from_def
proof (induction es arbitrary: G)
  case Nil
  then show ?case by simp
next
  case (Cons e es)
  obtain u v where e: "e = (u, v)" by (cases e)
  show ?case using Cons.IH[of "add_edge G e"] by (auto simp: e add_edge_succ_set)
qed

lemma G_of_nodes: "set (g_nodes (G_of se)) = fst ` fst ` set se \<union> snd ` fst ` set se"
  by (simp add: G_of_def add_edges_from_nodes empty_graph_def)

lemma G_of_distinct: "distinct (g_nodes (G_of se))"
  by (simp add: G_of_def add_edges_from_distinct empty_graph_def)

lemma G_of_succ: "set (g_succ (G_of se) u) = {v. (u, v) \<in> fst ` set se}"
  by (simp add: G_of_def add_edges_from_succ_set empty_graph_def)

lemma G_edges_set:
  "set (G_edges G) = {(u, v). u \<in> set (g_nodes G) \<and> v \<in> set (g_succ G u)}"
  by (auto simp: G_edges_def)

lemma G_of_edges: "set (G_edges (G_of se)) = fst ` set se"
proof -
  have "u \<in> set (g_nodes (G_of se))" if "(u, v) \<in> fst ` set se" for u v
    using that by (force simp: G_of_nodes)
  then show ?thesis by (auto simp: G_edges_set G_of_succ)
qed

text \<open>
  Reversal keeps the nodes and their order, and collects for every node its
  predecessors, each once.
\<close>

lemma rev_fold_nodes:
  "\<forall>e \<in> set es. fst e \<in> set (g_nodes H) \<and> snd e \<in> set (g_nodes H) \<Longrightarrow>
   g_nodes (foldl (\<lambda>H e. case e of (u, v) \<Rightarrow> add_edge H (v, u)) H es) = g_nodes H"
proof (induction es arbitrary: H)
  case Nil
  then show ?case by simp
next
  case (Cons e es)
  obtain u v where e: "e = (u, v)" by (cases e)
  from Cons.prems have uv: "u \<in> set (g_nodes H)" "v \<in> set (g_nodes H)" by (auto simp: e)
  then have same: "g_nodes (add_edge H (v, u)) = g_nodes H" by (simp add: add_edge_nodes_same)
  with Cons.prems have "\<forall>e \<in> set es. fst e \<in> set (g_nodes (add_edge H (v, u))) \<and> snd e \<in> set (g_nodes (add_edge H (v, u)))"
    by simp
  from Cons.IH[OF this] same show ?case by (simp add: e)
qed

lemma rev_fold_succ_set:
  "set (g_succ (foldl (\<lambda>H e. case e of (u, v) \<Rightarrow> add_edge H (v, u)) H es) x) =
   set (g_succ H x) \<union> {u. (u, x) \<in> set es}"
proof (induction es arbitrary: H)
  case Nil
  then show ?case by simp
next
  case (Cons e es)
  obtain u v where e: "e = (u, v)" by (cases e)
  show ?case using Cons.IH[of "add_edge H (v, u)"] by (auto simp: e add_edge_succ_set)
qed

lemma rev_fold_succ_distinct:
  "distinct (g_succ H x) \<Longrightarrow>
   distinct (g_succ (foldl (\<lambda>H e. case e of (u, v) \<Rightarrow> add_edge H (v, u)) H es) x)"
proof (induction es arbitrary: H)
  case Nil
  then show ?case by simp
next
  case (Cons e es)
  obtain u v where e: "e = (u, v)" by (cases e)
  show ?case using Cons by (simp add: e add_edge_succ_distinct)
qed

lemma reverse_nodes_G_of: "g_nodes (reverse (G_of se)) = g_nodes (G_of se)"
proof -
  have "\<forall>e \<in> set (G_edges (G_of se)). fst e \<in> set (g_nodes (G_of se)) \<and> snd e \<in> set (g_nodes (G_of se))"
    by (force simp: G_of_edges G_of_nodes)
  then show ?thesis
    unfolding reverse_def by (subst rev_fold_nodes) simp_all
qed

lemma parents_set: "set (parents se node) = {p. (p, node) \<in> fst ` set se}"
  by (simp add: parents_def reverse_def rev_fold_succ_set G_of_edges)

lemma parents_distinct: "distinct (parents se node)"
  by (simp add: parents_def reverse_def rev_fold_succ_distinct)

lemma parents_absent: "node \<notin> set (g_nodes (G_of se)) \<Longrightarrow> parents se node = []"
proof -
  assume "node \<notin> set (g_nodes (G_of se))"
  then have "{p. (p, node) \<in> fst ` set se} = {}" by (force simp: G_of_nodes)
  then have "set (parents se node) = {}" by (simp only: parents_set)
  then show ?thesis by simp
qed

text \<open>
  Assigning to pairwise different keys of a dictionary appends them in order, so
  \<^verbatim>\<open>cptCombos\<close> lists the graph's nodes in their order, each with its combinations.
\<close>

lemma update_fresh: "k \<notin> fst ` set al \<Longrightarrow> AList.update k v al = al @ [(k, v)]"
  by (induction al) auto

lemma foldl_update_distinct:
  "distinct (map fst xs) \<Longrightarrow> fst ` set acc \<inter> fst ` set xs = {} \<Longrightarrow>
   foldl (\<lambda>d kv. case kv of (k, v) \<Rightarrow> AList.update k (f v) d) acc xs = acc @ map (\<lambda>(k, v). (k, f v)) xs"
proof (induction xs arbitrary: acc)
  case Nil
  then show ?case by simp
next
  case (Cons x xs)
  obtain k v where x: "x = (k, v)" by (cases x)
  from Cons.prems have fresh: "k \<notin> fst ` set acc" by (auto simp: x)
  have "fst ` set (acc @ [(k, f v)]) \<inter> fst ` set xs = {}"
    using Cons.prems by (auto simp: x)
  with Cons.IH[of "acc @ [(k, f v)]"] Cons.prems(1) show ?case
    by (simp add: x update_fresh[OF fresh])
qed

lemma cptCombos_G_of:
  "cptCombos (G_of se) = map (\<lambda>n. (n, bools_of (parents se n))) (g_nodes (G_of se))"
proof -
  have d: "distinct (map fst (adjacency (reverse (G_of se))))"
    by (simp add: adjacency_def comp_def reverse_nodes_G_of G_of_distinct)
  show ?thesis
    unfolding cptCombos_def
    by (subst foldl_update_distinct[OF d])
       (simp_all add: adjacency_def reverse_nodes_G_of parents_def comp_def)
qed

lemma update_keys_set: "fst ` set (AList.update k v al) = insert k (fst ` set al)"
  by (induction al) auto

lemma update_vals_set: "snd ` set (AList.update k v al) \<subseteq> insert v (snd ` set al)"
  by (induction al) auto

lemma update_vals_distinct:
  "v \<notin> snd ` set al \<Longrightarrow> distinct (map snd al) \<Longrightarrow> distinct (map snd (AList.update k v al))"
proof (induction al)
  case Nil
  then show ?case by simp
next
  case (Cons p al)
  show ?case
  proof (cases "fst p = k")
    case True
    with Cons.prems show ?thesis by auto
  next
    case False
    from Cons.prems have "snd p \<notin> snd ` set al" by auto
    moreover from Cons.prems have "snd p \<noteq> v" by auto
    ultimately have "snd p \<notin> snd ` set (AList.update k v al)"
      using update_vals_set[of k v al] by auto
    with Cons False show ?thesis by auto
  qed
qed

lemma bbn_fold_inv:
  "distinct (map fst d) \<Longrightarrow> distinct (map snd d) \<Longrightarrow> (\<forall>a \<in> snd ` set d. a < k) \<Longrightarrow>
   (let d' = foldl (\<lambda>d row. case row of (i, name) \<Rightarrow> AList.update name i d) d (enumerate k xs)
    in distinct (map fst d') \<and> distinct (map snd d') \<and> (\<forall>a \<in> snd ` set d'. a < k + length xs) \<and>
       fst ` set d' = fst ` set d \<union> set xs)"
proof (induction xs arbitrary: d k)
  case Nil
  then show ?case by simp
next
  case (Cons x xs)
  let ?d1 = "AList.update x k d"
  have 1: "distinct (map fst ?d1)" using Cons.prems(1) by (simp add: distinct_update)
  have fresh: "k \<notin> snd ` set d" using Cons.prems(3) by auto
  have 2: "distinct (map snd ?d1)" using fresh Cons.prems(2) by (rule update_vals_distinct)
  have 3: "\<forall>a \<in> snd ` set ?d1. a < Suc k"
  proof
    fix a assume "a \<in> snd ` set ?d1"
    with update_vals_set[of x k d] have "a = k \<or> a \<in> snd ` set d" by blast
    with Cons.prems(3) show "a < Suc k" by (auto simp: less_Suc_eq)
  qed
  from Cons.IH[OF 1 2 3] show ?case
    by (simp add: Let_def update_keys_set)
qed

lemma bbnNodes_props:
  "distinct (map fst (bbnNodes nodes))" "distinct (map snd (bbnNodes nodes))"
  "\<forall>a \<in> snd ` set (bbnNodes nodes). a < length nodes"
  "fst ` set (bbnNodes nodes) = set nodes"
  using bbn_fold_inv[of "[]" 0 nodes] by (simp_all add: bbnNodes_def Let_def)

lemma bbnNodes_heap_dom: "dom (bbnNodes_heap nodes) = {0..<length nodes}"
proof -
  have "fst ` set (map (\<lambda>(i, name). (i, new_node i name)) (enumerate 0 nodes)) = {0..<length nodes}"
    by (force simp: in_set_enumerate_eq image_iff)
  then show ?thesis unfolding bbnNodes_heap_def by (simp only: dom_map_of_conv_image_fst)
qed

lemma bbnNodes_lookup:
  "node \<in> set nodes \<Longrightarrow> \<exists>a. map_of (bbnNodes nodes) node = Some a \<and> a < length nodes"
proof -
  assume "node \<in> set nodes"
  then have "node \<in> fst ` set (bbnNodes nodes)" by (simp add: bbnNodes_props)
  then obtain a where a: "(node, a) \<in> set (bbnNodes nodes)" by force
  then have "map_of (bbnNodes nodes) node = Some a" using bbnNodes_props(1) by simp
  moreover from a have "a < length nodes" using bbnNodes_props(3) by force
  ultimately show ?thesis by blast
qed

lemmas graph_defs = G_of_def add_edges_from_def add_edge_def add_node_def empty_graph_def
  reverse_def G_edges_def adjacency_def parents_def Let_def

lemma target_lookup_cases:
  "(case target_lookup (bbnNodes nodes) of
      Inl e \<Rightarrow> e = KeyError \<and> ''tq'' \<notin> set nodes
    | Inr a \<Rightarrow> ''tq'' \<in> set nodes \<and> a < length nodes)"
proof (cases "''tq'' \<in> set nodes")
  case True
  from bbnNodes_lookup[OF True] show ?thesis using True by (auto simp: target_lookup_def)
next
  case False
  then have "''tq'' \<notin> fst ` set (bbnNodes nodes)" by (simp add: bbnNodes_props)
  then have "map_of (bbnNodes nodes) ''tq'' = None" by (simp add: map_of_eq_None_iff)
  with False show ?thesis by (simp add: target_lookup_def)
qed

text \<open>
  Claim C6, as amended. Building the graph validates nothing and cannot fail: for every
  dictionary of super-edges, self-loops and cycles included, the edges of the built graph
  are exactly the (parent, child) pairs. The later lookup of the target
  \<^verbatim>\<open>bbnNodes['tq']\<close> is the only check: it raises KeyError when the node table has no
  row \<^verbatim>\<open>tq\<close>, and yields the target's object otherwise.
\<close>

theorem graph_not_validated:
  "set (G_edges (G_of se)) = fst ` set se \<and>
   (case target_lookup (bbnNodes nodes) of
      Inl e \<Rightarrow> e = KeyError \<and> ''tq'' \<notin> set nodes
    | Inr a \<Rightarrow> ''tq'' \<in> set nodes \<and> a < length nodes)"
  using G_of_edges target_lookup_cases by blast

text \<open>
  A self-loop on the target and a two-node cycle are both built as they are, and the
  target lookup succeeds on a node table that has \<^verbatim>\<open>tq\<close>; without \<^verbatim>\<open>tq\<close> the failure is
  a KeyError.
\<close>

theorem graph_validation_counterexample:
  "G_edges (G_of [((''tq'', ''tq''), \<lambda>_. 1/2)]) = [(''tq'', ''tq'')] \<and>
   G_edges (G_of [((''a'', ''tq''), \<lambda>_. 1/2), ((''tq'', ''a''), \<lambda>_. 1/2)]) = [(''a'', ''tq''), (''tq'', ''a'')] \<and>
   target_lookup (bbnNodes [''a'', ''tq'']) = Inr 1 \<and>
   target_lookup (bbnNodes [''a'', ''b'']) = Inl KeyError"
  by (simp add: graph_defs target_lookup_def bbnNodes_def enumerate_simps)

section \<open>Properties of the CPT generation\<close>

lemma length_pairs_of: "length (pairs_of leak ts) = 2 * length ts"
  by (induction ts) (simp_all add: pairs_of_def)

lemma pairs_of_append: "pairs_of leak (xs @ ys) = pairs_of leak xs @ pairs_of leak ys"
  by (simp add: pairs_of_def)

lemma pairs_of_concat: "pairs_of leak (concat xss) = concat (map (pairs_of leak) xss)"
  by (induction xss) (simp_all add: pairs_of_append, simp add: pairs_of_def)

lemma parent_loop_value:
  "parent_loop se leak node combo tmp tbl = Inr tbl' \<Longrightarrow>
   tbl' = (case tbl node of None \<Rightarrow> tbl
           | Some l \<Rightarrow> tbl(node \<mapsto> l @ pairs_of leak (tmp_values se node combo tmp)))"
proof (induction se leak node combo tmp tbl rule: parent_loop.induct)
  case (1 se leak node tmp tbl)
  then show ?case by (auto simp: pairs_of_def split: option.splits)
next
  case (2 se leak node parent ps tmp tbl)
  from "2.prems" obtain tmp' l where t: "tmp_step se node parent tmp = Inr tmp'"
    and l: "tbl node = Some l"
    by (auto split: sum.splits option.splits)
  let ?tbl1 = "tbl(node \<mapsto> l @ [\<lambda>s. 1 - leak s * tmp' s, \<lambda>s. leak s * tmp' s])"
  from "2.prems" t l have run: "parent_loop se leak node ps tmp' ?tbl1 = Inr tbl'" by simp
  from "2.IH"[OF t l run] show ?case
    using t l by (simp add: pairs_of_def)
qed

lemma parent_loop_length:
  "parent_loop se leak node combo tmp tbl = Inr tbl' \<Longrightarrow>
   length (tmp_values se node combo tmp) = length combo"
proof (induction se leak node combo tmp tbl rule: parent_loop.induct)
  case (1 se leak node tmp tbl)
  then show ?case by simp
next
  case (2 se leak node parent ps tmp tbl)
  from "2.prems" obtain tmp' l where t: "tmp_step se node parent tmp = Inr tmp'"
    and l: "tbl node = Some l"
    by (auto split: sum.splits option.splits)
  let ?tbl1 = "tbl(node \<mapsto> l @ [\<lambda>s. 1 - leak s * tmp' s, \<lambda>s. leak s * tmp' s])"
  from "2.prems" t l have run: "parent_loop se leak node ps tmp' ?tbl1 = Inr tbl'" by simp
  from "2.IH"[OF t l run] show ?case using t by simp
qed

lemma combo_loop_value:
  "combo_loop se leak node cs tbl = Inr tbl' \<Longrightarrow>
   tbl' = (case tbl node of None \<Rightarrow> tbl
           | Some l \<Rightarrow> tbl(node \<mapsto> l @ pairs_of leak (concat (map (\<lambda>c. tmp_values se node c (\<lambda>_. 1)) cs))))"
proof (induction se leak node cs tbl rule: combo_loop.induct)
  case (1 se leak node tbl)
  then show ?case by (auto simp: pairs_of_def split: option.splits)
next
  case (2 se leak node combo cs tbl)
  from "2.prems" obtain tbl1 where p: "parent_loop se leak node combo (\<lambda>_. 1) tbl = Inr tbl1"
    and run: "combo_loop se leak node cs tbl1 = Inr tbl'"
    by (auto split: sum.splits)
  note v1 = parent_loop_value[OF p]
  note v2 = "2.IH"[OF p run]
  show ?case
  proof (cases "tbl node")
    case None
    with v1 have "tbl1 = tbl" by simp
    with v2 None show ?thesis by simp
  next
    case (Some l)
    with v1 have "tbl1 = tbl(node \<mapsto> l @ pairs_of leak (tmp_values se node combo (\<lambda>_. 1)))" by simp
    with v2 Some show ?thesis by (simp add: pairs_of_append)
  qed
qed

lemma combo_loop_lengths:
  "combo_loop se leak node cs tbl = Inr tbl' \<Longrightarrow> c \<in> set cs \<Longrightarrow>
   length (tmp_values se node c (\<lambda>_. 1)) = length c"
proof (induction se leak node cs tbl rule: combo_loop.induct)
  case (1 se leak node tbl)
  then show ?case by simp
next
  case (2 se leak node combo cs tbl)
  from "2.prems" obtain tbl1 where p: "parent_loop se leak node combo (\<lambda>_. 1) tbl = Inr tbl1"
    and run: "combo_loop se leak node cs tbl1 = Inr tbl'"
    by (auto split: sum.splits)
  from "2.prems"(2) consider "c = combo" | "c \<in> set cs" by auto
  then show ?case
  proof cases
    case 1
    with parent_loop_length[OF p] show ?thesis by simp
  next
    case 2
    from "2.IH"[OF p run 2] show ?thesis .
  qed
qed

lemma node_loop_value:
  "node_loop se leak cc tbl = Inr tbl' \<Longrightarrow> distinct (map fst cc) \<Longrightarrow>
   tbl' n = (case tbl n of None \<Rightarrow> None
             | Some l \<Rightarrow> (case map_of cc n of None \<Rightarrow> Some l
                          | Some cs \<Rightarrow> Some (l @ pairs_of leak (entries_of se n cs))))"
proof (induction se leak cc tbl rule: node_loop.induct)
  case (1 se leak tbl)
  then show ?case by (simp split: option.splits)
next
  case (2 se leak node combinations rest tbl)
  from "2.prems" obtain tbl1 where c: "combo_loop se leak node combinations tbl = Inr tbl1"
    and run: "node_loop se leak rest tbl1 = Inr tbl'"
    by (auto split: sum.splits)
  from "2.prems" have d: "distinct (map fst rest)" and fresh: "node \<notin> fst ` set rest" by auto
  note v1 = combo_loop_value[OF c]
  note v2 = "2.IH"[OF c run d]
  from fresh have nf: "map_of rest node = None" by (simp add: map_of_eq_None_iff)
  show ?case
  proof (cases "n = node")
    case True
    show ?thesis
    proof (cases "tbl node")
      case None
      with v1 have "tbl1 = tbl" by simp
      with v2 None True show ?thesis by simp
    next
      case (Some l)
      with v1 have "tbl1 node = Some (l @ pairs_of leak (entries_of se node combinations))"
        by (simp add: entries_of_def)
      with v2 Some True nf show ?thesis by simp
    qed
  next
    case False
    with v1 have "tbl1 n = tbl n" by (auto split: option.splits)
    with v2 False show ?thesis by (cases "tbl n") simp_all
  qed
qed

lemma node_loop_lengths:
  "node_loop se leak cc tbl = Inr tbl' \<Longrightarrow> (n, cs) \<in> set cc \<Longrightarrow> c \<in> set cs \<Longrightarrow>
   length (tmp_values se n c (\<lambda>_. 1)) = length c"
proof (induction se leak cc tbl rule: node_loop.induct)
  case (1 se leak tbl)
  then show ?case by simp
next
  case (2 se leak node combinations rest tbl)
  from "2.prems" obtain tbl1 where c: "combo_loop se leak node combinations tbl = Inr tbl1"
    and run: "node_loop se leak rest tbl1 = Inr tbl'"
    by (auto split: sum.splits)
  from "2.prems"(2) consider "(n, cs) = (node, combinations)" | "(n, cs) \<in> set rest" by auto
  then show ?case
  proof cases
    case 1
    with combo_loop_lengths[OF c] "2.prems"(3) show ?thesis by simp
  next
    case 2
    from "2.IH"[OF c run 2 "2.prems"(3)] show ?thesis .
  qed
qed

lemma cpts_init_value: "cpts_init nodes n = (if n \<in> set nodes then Some [] else None)"
  by (induction nodes) (auto simp: cpts_init_def)

lemma bools_of_Nil: "bools_of [] = [[]]"
  by (simp add: bools_of_def combo_of_def)

lemma entries_of_no_parents: "entries_of se n (bools_of []) = []"
  by (simp add: bools_of_Nil entries_of_def)

lemma length_bools_of: "length (bools_of incoming) = 2 ^ length incoming"
proof -
  have "foldr (*) (map length (replicate k [True, False])) 1 = 2 ^ k" for k
    by (induction k) simp_all
  then show ?thesis by (simp only: bools_of_def length_map length_product_lists)
qed

lemma length_in_bools_of: "c \<in> set (bools_of incoming) \<Longrightarrow> length c = length incoming"
  by (auto simp: bools_of_def combo_of_def dest: in_set_product_lists_length)

text \<open>
  The list stored for a node of the node table, when the generation succeeds: the pairs
  built from the successive values of \<^verbatim>\<open>tmp\<close>, over the combinations of its parents.
\<close>

lemma cpts_value:
  assumes run: "cpts se leak nodes = Inr tbl" and n: "node \<in> set nodes"
  shows "tbl node = Some (pairs_of leak (entries_of se node (bools_of (parents se node))))"
proof -
  let ?G = "G_of se"
  let ?cc = "map (\<lambda>n. (n, bools_of (parents se n))) (g_nodes ?G)"
  from run have nl: "node_loop se leak ?cc (cpts_init nodes) = Inr tbl"
    by (simp add: cpts_def cptCombos_G_of)
  have d: "distinct (map fst ?cc)" by (simp add: comp_def G_of_distinct)
  have m: "map_of ?cc node = (if node \<in> set (g_nodes ?G) then Some (bools_of (parents se node)) else None)"
    by (simp add: map_of_map_restrict restrict_map_def)
  show ?thesis
  proof (cases "node \<in> set (g_nodes ?G)")
    case True
    with node_loop_value[OF nl d, of node] n m show ?thesis
      by (simp add: cpts_init_value)
  next
    case False
    then have "parents se node = []" by (rule parents_absent)
    with node_loop_value[OF nl d, of node] n m False show ?thesis
      by (simp add: cpts_init_value entries_of_no_parents pairs_of_def)
  qed
qed

lemma sum_list_const_len: "(\<forall>x \<in> set xs. f x = (k::nat)) \<Longrightarrow> sum_list (map f xs) = length xs * k"
  by (induction xs) auto

lemma entries_of_length:
  assumes run: "cpts se leak nodes = Inr tbl"
  shows "length (entries_of se node (bools_of (parents se node))) =
         length (parents se node) * 2 ^ length (parents se node)"
proof (cases "node \<in> set (g_nodes (G_of se))")
  case True
  let ?cc = "map (\<lambda>n. (n, bools_of (parents se n))) (g_nodes (G_of se))"
  from run have nl: "node_loop se leak ?cc (cpts_init nodes) = Inr tbl"
    by (simp add: cpts_def cptCombos_G_of)
  from True have mem: "(node, bools_of (parents se node)) \<in> set ?cc" by auto
  have "\<forall>c \<in> set (bools_of (parents se node)).
          length (tmp_values se node c (\<lambda>_. 1)) = length (parents se node)"
    using node_loop_lengths[OF nl mem] length_in_bools_of by simp
  then have "sum_list (map (\<lambda>c. length (tmp_values se node c (\<lambda>_. 1))) (bools_of (parents se node))) =
             length (bools_of (parents se node)) * length (parents se node)"
    by (rule sum_list_const_len)
  then show ?thesis
    by (simp add: entries_of_def length_concat comp_def length_bools_of)
next
  case False
  then have "parents se node = []" by (rule parents_absent)
  then show ?thesis by (simp add: entries_of_no_parents)
qed

text \<open>
  The generation succeeds when every node that a super-edge ends in is a row of the node
  table.
\<close>

lemma parent_loop_total:
  "names_ok se node combo \<Longrightarrow> combo = [] \<or> tbl node \<noteq> None \<Longrightarrow>
   \<exists>tbl'. parent_loop se leak node combo tmp tbl = Inr tbl' \<and> dom tbl' = dom tbl"
proof (induction se leak node combo tmp tbl rule: parent_loop.induct)
  case (1 se leak node tmp tbl)
  then show ?case by simp
next
  case (2 se leak node parent ps tmp tbl)
  from "2.prems"(1) obtain tmp' where t: "tmp_step se node parent tmp = Inr tmp'"
    by (cases parent) (auto simp: names_ok_def tmp_step_def)
  from "2.prems"(2) obtain l where l: "tbl node = Some l" by auto
  let ?tbl1 = "tbl(node \<mapsto> l @ [\<lambda>s. 1 - leak s * tmp' s, \<lambda>s. leak s * tmp' s])"
  from "2.prems"(1) have ok: "names_ok se node ps" by (simp add: names_ok_def)
  have "ps = [] \<or> ?tbl1 node \<noteq> None" by simp
  from "2.IH"[OF t l ok this] obtain tbl' where
    "parent_loop se leak node ps tmp' ?tbl1 = Inr tbl'" "dom tbl' = dom ?tbl1" by blast
  with t l show ?case by auto
qed

lemma combo_loop_total:
  "\<forall>c \<in> set cs. names_ok se node c \<and> (c = [] \<or> tbl node \<noteq> None) \<Longrightarrow>
   \<exists>tbl'. combo_loop se leak node cs tbl = Inr tbl' \<and> dom tbl' = dom tbl"
proof (induction se leak node cs tbl rule: combo_loop.induct)
  case (1 se leak node tbl)
  then show ?case by simp
next
  case (2 se leak node combo cs tbl)
  from "2.prems" have "names_ok se node combo" "combo = [] \<or> tbl node \<noteq> None" by auto
  with parent_loop_total[of se node combo tbl leak "\<lambda>_. 1"] obtain tbl1 where
    p: "parent_loop se leak node combo (\<lambda>_. 1) tbl = Inr tbl1" and d: "dom tbl1 = dom tbl" by blast
  from d have "tbl1 node \<noteq> None \<longleftrightarrow> tbl node \<noteq> None" by (auto simp: dom_def)
  with "2.prems" have "\<forall>c \<in> set cs. names_ok se node c \<and> (c = [] \<or> tbl1 node \<noteq> None)" by auto
  from "2.IH"[OF p this] d p show ?case by auto
qed

lemma node_loop_total:
  "\<forall>(n, cs) \<in> set cc. \<forall>c \<in> set cs. names_ok se n c \<and> (c = [] \<or> tbl n \<noteq> None) \<Longrightarrow>
   \<exists>tbl'. node_loop se leak cc tbl = Inr tbl'"
proof (induction se leak cc tbl rule: node_loop.induct)
  case (1 se leak tbl)
  then show ?case by simp
next
  case (2 se leak node combinations rest tbl)
  from "2.prems" have "\<forall>c \<in> set combinations. names_ok se node c \<and> (c = [] \<or> tbl node \<noteq> None)"
    by auto
  with combo_loop_total[of combinations se node tbl leak] obtain tbl1 where
    c: "combo_loop se leak node combinations tbl = Inr tbl1" and d: "dom tbl1 = dom tbl" by blast
  from d have "tbl1 n \<noteq> None \<longleftrightarrow> tbl n \<noteq> None" for n by (auto simp: dom_def)
  with "2.prems" have "\<forall>(n, cs) \<in> set rest. \<forall>c \<in> set cs. names_ok se n c \<and> (c = [] \<or> tbl1 n \<noteq> None)"
    by auto
  from "2.IH"[OF c this] c show ?case by auto
qed

lemma names_ok_bools_of:
  assumes c: "c \<in> set (bools_of (parents se n))"
  shows "names_ok se n c"
proof -
  from c obtain t where t: "t \<in> set (product_lists (replicate (length (parents se n)) [True, False]))"
    and ct: "c = combo_of (parents se n) t" by (auto simp: bools_of_def)
  from t have len: "length t = length (parents se n)"
    by (auto dest: in_set_product_lists_length)
  have "map_of se (parents se n ! i, n) \<noteq> None" if "i < length t" for i
  proof -
    from that len have "parents se n ! i \<in> set (parents se n)" by simp
    then have "(parents se n ! i, n) \<in> fst ` set se" by (simp add: parents_set)
    then show ?thesis by (simp add: map_of_eq_None_iff)
  qed
  then show ?thesis
    by (auto simp: ct combo_of_def names_ok_def list_all_iff)
qed

lemma cpts_total:
  assumes sub: "snd ` fst ` set se \<subseteq> set nodes"
  shows "\<exists>tbl. cpts se leak nodes = Inr tbl"
proof -
  let ?cc = "map (\<lambda>n. (n, bools_of (parents se n))) (g_nodes (G_of se))"
  have "names_ok se n c \<and> (c = [] \<or> cpts_init nodes n \<noteq> None)"
    if "c \<in> set (bools_of (parents se n))" for n c
  proof
    show "names_ok se n c" using that by (rule names_ok_bools_of)
    show "c = [] \<or> cpts_init nodes n \<noteq> None"
    proof (cases "parents se n")
      case Nil
      with that show ?thesis by (simp add: bools_of_Nil)
    next
      case (Cons p ps)
      then have "p \<in> set (parents se n)" by simp
      then have "(p, n) \<in> fst ` set se" by (simp add: parents_set)
      then have "n \<in> snd ` fst ` set se" by force
      with sub show ?thesis by (auto simp: cpts_init_value)
    qed
  qed
  then have "\<forall>(n, cs) \<in> set ?cc. \<forall>c \<in> set cs. names_ok se n c \<and> (c = [] \<or> cpts_init nodes n \<noteq> None)"
    by auto
  from node_loop_total[OF this] show ?thesis by (simp add: cpts_def cptCombos_G_of)
qed

lemma ex_G_nodes: "g_nodes (G_of ex_se) = [''a'', ''tq'', ''b'']"
  by (simp add: ex_se_def graph_defs)

lemma ex_parents:
  "parents ex_se ''tq'' = [''a'', ''b'']" "parents ex_se ''a'' = []" "parents ex_se ''b'' = []"
  by (simp_all add: ex_se_def graph_defs)

lemma ex_cptCombos: "cptCombos (G_of ex_se) =
  [(''a'', [[]]), (''tq'', [[Variable ''a'', Variable ''b''], [Variable ''a'', Complement ''b''],
                         [Complement ''a'', Variable ''b''], [Complement ''a'', Complement ''b'']]),
   (''b'', [[]])]"
  by (simp add: cptCombos_G_of ex_G_nodes ex_parents bools_of_def combo_of_def)

lemma ex_cpts_runs: "\<exists>tbl. cpts ex_se ex_leak ex_nodes = Inr tbl"
  by (simp only: cpts_def ex_cptCombos) (simp add: cpts_init_def ex_nodes_def tmp_step_def ex_se_def)

lemma ex_entries:
  "map (\<lambda>t. t 0) (entries_of ex_se ''tq'' (bools_of (parents ex_se ''tq''))) =
     [1/2, 3/8, 1/2, 1/2, 1, 3/4, 1, 1]"
  by (simp only: ex_parents) (simp add: bools_of_def combo_of_def entries_of_def tmp_step_def ex_se_def)

lemma ex_bbnNodes: "bbnNodes ex_nodes = [(''a'', 0), (''b'', 1), (''tq'', 2)]"
  by (simp add: bbnNodes_def ex_nodes_def enumerate_simps)

text \<open>
  Claim C1, evaluated on a node with two parents. In the example, \<^verbatim>\<open>tq\<close> has the parents
  a and b with super-edge strengths 1/2 and 1/4, and the leak is 9/10. The claim asks for
  one pair per combination, four pairs in all: (53/80, 27/80), (11/20, 9/20),
  (13/40, 27/40), (1/10, 9/10). The code stores eight pairs at sample 0: one after each
  parent of each combination, the first of them computed from the first parent alone.
\<close>

theorem cpt_two_parents_eval:
  "\<exists>tbl l. cpts ex_se ex_leak ex_nodes = Inr tbl \<and> tbl ''tq'' = Some l \<and>
     map (\<lambda>p. p 0) l =
       [11/20, 9/20, 53/80, 27/80, 11/20, 9/20, 11/20, 9/20,
        1/10, 9/10, 13/40, 27/40, 1/10, 9/10, 1/10, 9/10]"
  by (simp only: cpts_def ex_cptCombos)
     (simp add: cpts_init_def ex_nodes_def tmp_step_def ex_se_def ex_leak_def)

text \<open>
  Claim C10. After a successful CPT generation, the list stored for a node of the node
  table has \<open>2 * k * 2 ^ k\<close> entries, where \<open>k\<close> is the number of the node's parents
  (the parents are, each once, the sources of the super-edges into the node); the list
  is empty for a node without parents and for a node that is not in the graph.
\<close>

theorem cpts_length:
  assumes run: "cpts se leak nodes = Inr tbl" and n: "node \<in> set nodes"
  shows "distinct (parents se node) \<and>
         set (parents se node) = {p. (p, node) \<in> fst ` set se} \<and>
         (\<exists>l. tbl node = Some l \<and>
             length l = 2 * length (parents se node) * 2 ^ length (parents se node) \<and>
             (parents se node = [] \<longrightarrow> l = []) \<and>
             (node \<notin> set (g_nodes (G_of se)) \<longrightarrow> l = []))"
proof -
  let ?l = "pairs_of leak (entries_of se node (bools_of (parents se node)))"
  have v: "tbl node = Some ?l" using cpts_value[OF run n] .
  have len: "length ?l = 2 * length (parents se node) * 2 ^ length (parents se node)"
    by (simp add: length_pairs_of entries_of_length[OF run])
  have z: "parents se node = [] \<longrightarrow> ?l = []"
    by (simp add: entries_of_no_parents pairs_of_def)
  have a: "node \<notin> set (g_nodes (G_of se)) \<longrightarrow> ?l = []"
    using parents_absent z by blast
  from v len z a parents_distinct[of se node] parents_set[of se node] show ?thesis by blast
qed

text \<open>In the example \<^verbatim>\<open>tq\<close> has two parents and 16 entries; a has none and no entry.\<close>

theorem cpts_length_witness:
  "\<exists>tbl l. cpts ex_se ex_leak ex_nodes = Inr tbl \<and> tbl ''tq'' = Some l \<and> length l = 16 \<and>
     tbl ''a'' = Some []"
proof -
  from ex_cpts_runs obtain tbl where run: "cpts ex_se ex_leak ex_nodes = Inr tbl" by blast
  have nq: "''tq'' \<in> set ex_nodes" and na: "''a'' \<in> set ex_nodes" by (simp_all add: ex_nodes_def)
  from cpts_length[OF run nq] obtain l where "tbl ''tq'' = Some l" "length l = 16"
    by (auto simp: ex_parents)
  moreover from cpts_length[OF run na] have "tbl ''a'' = Some []"
    by (auto simp: ex_parents)
  ultimately show ?thesis using run by blast
qed

text \<open>
  Claim C8. After a successful CPT generation, the entries of every node of the node
  table, read at sample \<open>s\<close>, are the pairs \<open>1 - leak s * t s\<close>, \<open>leak s * t s\<close> with
  the one value \<open>leak s\<close> of that sample's leak draw, where \<open>t\<close> ranges over the
  values of \<^verbatim>\<open>tmp\<close>, which are products of super-edge terms and do not involve the leak.
\<close>

theorem shared_leak:
  assumes run: "cpts se leak nodes = Inr tbl" and n: "node \<in> set nodes"
  shows "\<exists>l. tbl node = Some l \<and>
           map (\<lambda>p. p sample) l =
             concat (map (\<lambda>t. [1 - leak sample * t sample, leak sample * t sample])
                       (entries_of se node (bools_of (parents se node))))"
proof -
  have "map (\<lambda>p. p sample) (pairs_of leak ts) =
        concat (map (\<lambda>t. [1 - leak sample * t sample, leak sample * t sample]) ts)" for ts
    by (induction ts) (simp_all add: pairs_of_def)
  with cpts_value[OF run n] show ?thesis by simp
qed

text \<open>In the example both the parentless node a and the node \<^verbatim>\<open>tq\<close> use \<open>ex_leak 0\<close>.\<close>

theorem shared_leak_witness:
  "\<exists>tbl la lq. cpts ex_se ex_leak ex_nodes = Inr tbl \<and> tbl ''a'' = Some la \<and> tbl ''tq'' = Some lq \<and>
     map (\<lambda>p. p 0) la = [] \<and>
     map (\<lambda>p. p 0) lq =
       concat (map (\<lambda>t. [1 - ex_leak 0 * t, ex_leak 0 * t]) [1/2, 3/8, 1/2, 1/2, 1, 3/4, 1, 1])"
proof -
  from ex_cpts_runs obtain tbl where run: "cpts ex_se ex_leak ex_nodes = Inr tbl" by blast
  have na: "''a'' \<in> set ex_nodes" and nq: "''tq'' \<in> set ex_nodes" by (simp_all add: ex_nodes_def)
  from shared_leak[OF run na, of 0] obtain la where la: "tbl ''a'' = Some la"
    and va: "map (\<lambda>p. p 0) la = []"
    by (auto simp: ex_parents entries_of_no_parents)
  from shared_leak[OF run nq, of 0] obtain lq where lq: "tbl ''tq'' = Some lq"
    and vq: "map (\<lambda>p. p 0) lq =
             concat (map (\<lambda>t. [1 - ex_leak 0 * t 0, ex_leak 0 * t 0])
                       (entries_of ex_se ''tq'' (bools_of (parents ex_se ''tq''))))"
    by blast
  have "concat (map (\<lambda>t. [1 - ex_leak 0 * t 0, ex_leak 0 * t 0]) ts) =
        concat (map (\<lambda>t. [1 - ex_leak 0 * t, ex_leak 0 * t]) (map (\<lambda>t. t 0) ts))" for ts :: "vec list"
    by (induction ts) simp_all
  with vq have "map (\<lambda>p. p 0) lq =
       concat (map (\<lambda>t. [1 - ex_leak 0 * t, ex_leak 0 * t]) [1/2, 3/8, 1/2, 1/2, 1, 3/4, 1, 1])"
    by (simp only: ex_entries)
  with run la lq va show ?thesis by blast
qed

section \<open>Properties of the belief network and of the inference loop\<close>

text \<open>
  Claim C2, on the code. Whatever the nodes and the edges, the network on which the
  inference runs has no edge: the loop over \<^verbatim>\<open>bbnEdges\<close> never calls \<^verbatim>\<open>add_edge\<close>.
\<close>

lemma dt_base_has_no_edges: "bbn_edges (dt_base h bn es) = []"
proof -
  have skip: "foldl (\<lambda>b edge. b) b es = b" for b :: Bbn and es :: "Edge list"
    by (induction es) simp_all
  have keep: "bbn_edges (foldl (bbn_add_node h) b as) = bbn_edges b" for b as
    by (induction as arbitrary: b) (simp_all add: bbn_add_node_def split: option.splits)
  show ?thesis by (simp add: dt_base_def skip keep Bbn_new_def)
qed

text \<open>
  Installing the probabilities of a sample changes the \<^verbatim>\<open>probs\<close> of the node objects
  and nothing else.
\<close>

lemma set_probs_variable: "map_option variable (set_probs h a p x) = map_option variable (h x)"
  by (auto simp: set_probs_def split: option.splits)

lemma install_loop_variable:
  "install_loop tbl sample bn h = Inr h' \<Longrightarrow> map_option variable (h' x) = map_option variable (h x)"
proof (induction tbl sample bn h rule: install_loop.induct)
  case (1 tbl sample h)
  then show ?case by simp
next
  case (2 tbl sample node_id node rest h)
  from "2.prems" obtain l where l: "tbl node_id = Some l" by (auto split: option.splits)
  with "2.prems" have run: "install_loop tbl sample rest (set_probs h node (probs_at l sample)) = Inr h'"
    by simp
  from "2.IH"[OF l run] show ?case by (simp add: set_probs_variable)
qed

lemma install_loop_dom:
  "install_loop tbl sample bn h = Inr h' \<Longrightarrow> dom h' = dom h"
proof -
  assume r: "install_loop tbl sample bn h = Inr h'"
  have "x \<in> dom h' \<longleftrightarrow> x \<in> dom h" for x
    using install_loop_variable[OF r, of x] by (cases "h' x"; cases "h x") auto
  then show ?thesis by blast
qed

lemma install_loop_other:
  "install_loop tbl sample bn h = Inr h' \<Longrightarrow> a \<notin> snd ` set bn \<Longrightarrow> h' a = h a"
proof (induction tbl sample bn h rule: install_loop.induct)
  case (1 tbl sample h)
  then show ?case by simp
next
  case (2 tbl sample node_id node rest h)
  from "2.prems" obtain l where l: "tbl node_id = Some l" by (auto split: option.splits)
  with "2.prems" have run: "install_loop tbl sample rest (set_probs h node (probs_at l sample)) = Inr h'"
    by simp
  from "2.prems"(2) have "a \<notin> snd ` set rest" "a \<noteq> node" by auto
  with "2.IH"[OF l run] show ?case by (auto simp: set_probs_def split: option.splits)
qed

lemma install_loop_value:
  "install_loop tbl sample bn h = Inr h' \<Longrightarrow> distinct (map snd bn) \<Longrightarrow> (n, a) \<in> set bn \<Longrightarrow>
   h a = Some nd \<Longrightarrow>
   \<exists>l. tbl n = Some l \<and> h' a = Some (nd\<lparr>probs := probs_at l sample\<rparr>)"
proof (induction tbl sample bn h arbitrary: nd rule: install_loop.induct)
  case (1 tbl sample h)
  then show ?case by simp
next
  case (2 tbl sample node_id node rest h)
  from "2.prems"(1) obtain l where l: "tbl node_id = Some l" by (auto split: option.splits)
  let ?h1 = "set_probs h node (probs_at l sample)"
  from "2.prems"(1) l have run: "install_loop tbl sample rest ?h1 = Inr h'" by simp
  show ?case
  proof (cases "(n, a) = (node_id, node)")
    case True
    from "2.prems"(2) have "node \<notin> snd ` set rest" by auto
    from install_loop_other[OF run this] have "h' node = ?h1 node" .
    with True l "2.prems"(4) show ?thesis by (simp add: set_probs_def)
  next
    case False
    with "2.prems" have mem: "(n, a) \<in> set rest" and d: "distinct (map snd rest)" by auto
    from mem "2.prems"(2) have "a \<noteq> node" by force
    with "2.prems"(4) have "?h1 a = Some nd" by (auto simp: set_probs_def split: option.splits)
    from "2.IH"[OF l run d mem this] show ?thesis .
  qed
qed

lemma install_loop_total:
  "(\<forall>n \<in> fst ` set bn. tbl n \<noteq> None) \<Longrightarrow> \<exists>h'. install_loop tbl sample bn h = Inr h'"
  by (induction tbl sample bn h rule: install_loop.induct) (auto split: option.splits)

lemma cpts_total_on_nodes:
  assumes run: "cpts se leak nodes = Inr tbl"
  shows "\<forall>n \<in> fst ` set (bbnNodes nodes). tbl n \<noteq> None"
  using cpts_value[OF run] by (simp add: bbnNodes_props)

text \<open>
  Claim C5. After a successful CPT generation, for every node of the node table that has
  no parent and for every sample: once the sample's probabilities are installed on the
  node objects, the object of that node holds exactly \<open>[1, 0]\<close>. The store \<open>h\<close> is
  any store that holds the objects made for the node table, as every store of the
  inference loop does.
\<close>

theorem root_node_probs:
  assumes run: "cpts se leak nodes = Inr tbl"
      and n: "node \<in> set nodes"
      and z: "parents se node = []"
      and obj: "dom h = dom (bbnNodes_heap nodes)"
      and inst: "install_loop tbl sample (bbnNodes nodes) h = Inr h'"
  shows "\<exists>a nd. map_of (bbnNodes nodes) node = Some a \<and> h' a = Some nd \<and> probs nd = [1, 0]"
proof -
  from bbnNodes_lookup[OF n] obtain a where a: "map_of (bbnNodes nodes) node = Some a"
    and lt: "a < length nodes" by blast
  from a have mem: "(node, a) \<in> set (bbnNodes nodes)" by (rule map_of_SomeD)
  from lt obj have "a \<in> dom h" by (simp add: bbnNodes_heap_dom)
  then obtain nd where nd: "h a = Some nd" by blast
  from install_loop_value[OF inst bbnNodes_props(2) mem nd]
  obtain l where l: "tbl node = Some l" and h': "h' a = Some (nd\<lparr>probs := probs_at l sample\<rparr>)"
    by blast
  from cpts_value[OF run n] l z have "l = []"
    by (simp add: entries_of_no_parents pairs_of_def)
  with h' a show ?thesis by (simp add: probs_at_def)
qed

text \<open>In the example, node a (address 0) at sample 1.\<close>

theorem root_node_probs_witness:
  "\<exists>tbl h' nd. cpts ex_se ex_leak ex_nodes = Inr tbl \<and>
     install_loop tbl 1 (bbnNodes ex_nodes) (bbnNodes_heap ex_nodes) = Inr h' \<and>
     h' 0 = Some nd \<and> probs nd = [1, 0]"
proof -
  from ex_cpts_runs obtain tbl where run: "cpts ex_se ex_leak ex_nodes = Inr tbl" by blast
  from install_loop_total[OF cpts_total_on_nodes[OF run]]
  obtain h' where inst: "install_loop tbl 1 (bbnNodes ex_nodes) (bbnNodes_heap ex_nodes) = Inr h'"
    by blast
  have n: "''a'' \<in> set ex_nodes" by (simp add: ex_nodes_def)
  from root_node_probs[OF run n ex_parents(2) refl inst] run inst show ?thesis
    by (auto simp: ex_bbnNodes)
qed

text \<open>The loop over the samples returns whenever the CPT generation did and \<^verbatim>\<open>tq\<close> exists.\<close>

lemma sample_loop_frame:
  "sample_loop infer tbl bn target samples st = Inr st' \<Longrightarrow>
   st_bbn st' = st_bbn st \<and>
   (\<forall>a. map_option variable (st_heap st' a) = map_option variable (st_heap st a)) \<and>
   length (target_probs st') = length (target_probs st) + length samples"
proof (induction infer tbl bn target samples st rule: sample_loop.induct)
  case (1 infer tbl bn target st)
  then show ?case by simp
next
  case (2 infer tbl bn target sample rest st)
  from "2.prems" obtain h where h: "install_loop tbl sample bn (st_heap st) = Inr h"
    by (auto split: sum.splits)
  let ?st1 = "st\<lparr>st_heap := h, target_probs := target_probs st @ [infer h (st_bbn st) target]\<rparr>"
  from "2.prems" h have run: "sample_loop infer tbl bn target rest ?st1 = Inr st'" by simp
  from "2.IH"[OF h run] install_loop_variable[OF h] show ?case by simp
qed

lemma sample_loop_total:
  "(\<forall>n \<in> fst ` set bn. tbl n \<noteq> None) \<Longrightarrow>
   \<exists>st'. sample_loop infer tbl bn target samples st = Inr st'"
proof (induction infer tbl bn target samples st rule: sample_loop.induct)
  case (1 infer tbl bn target st)
  then show ?case by simp
next
  case (2 infer tbl bn target sample rest st)
  from install_loop_total[OF "2.prems"] obtain h
    where h: "install_loop tbl sample bn (st_heap st) = Inr h" by blast
  from "2.IH"[OF h "2.prems"] h show ?case by simp
qed

lemma run_inference_total:
  assumes run: "cpts se leak nodes = Inr tbl" and tq: "''tq'' \<in> set nodes"
  shows "\<exists>st. run_inference infer tbl nodes se numSamples = Inr st"
proof -
  from bbnNodes_lookup[OF tq] obtain a where "map_of (bbnNodes nodes) ''tq'' = Some a" by blast
  then have t: "target_lookup (bbnNodes nodes) = Inr a" by (simp add: target_lookup_def)
  from sample_loop_total[OF cpts_total_on_nodes[OF run]] t show ?thesis
    by (simp add: run_inference_def Let_def)
qed

text \<open>
  Claim C9. When the inference loop returns, the network object is the one built before
  the loop (same node dictionary, same edge list), every node object still carries the
  variable it was created with (only its \<^verbatim>\<open>probs\<close> may differ), no object was added or
  removed, and one potential per sample was appended. The inference of pybbn is taken as
  a function that reads the network.
\<close>

theorem network_structure_fixed:
  assumes "run_inference infer tbl nodes se numSamples = Inr st"
  shows "st_bbn st = dt_base (bbnNodes_heap nodes) (bbnNodes nodes) (bbnEdges se) \<and>
         (\<forall>a. map_option variable (st_heap st a) = map_option variable (bbnNodes_heap nodes a)) \<and>
         length (target_probs st) = numSamples"
proof -
  from assms obtain target where
    "sample_loop infer tbl (bbnNodes nodes) target [0..<numSamples]
       \<lparr>st_heap = bbnNodes_heap nodes,
        st_bbn = dt_base (bbnNodes_heap nodes) (bbnNodes nodes) (bbnEdges se),
        target_probs = []\<rparr> = Inr st"
    by (auto simp: run_inference_def Let_def split: sum.splits)
  from sample_loop_frame[OF this] show ?thesis by simp
qed

text \<open>The example run with three samples.\<close>

theorem network_structure_fixed_witness:
  "\<exists>tbl st. cpts ex_se ex_leak ex_nodes = Inr tbl \<and>
     run_inference ex_infer tbl ex_nodes ex_se 3 = Inr st \<and>
     st_bbn st = dt_base (bbnNodes_heap ex_nodes) (bbnNodes ex_nodes) (bbnEdges ex_se) \<and>
     (\<forall>a. map_option variable (st_heap st a) = map_option variable (bbnNodes_heap ex_nodes a)) \<and>
     length (target_probs st) = 3"
proof -
  from ex_cpts_runs obtain tbl where run: "cpts ex_se ex_leak ex_nodes = Inr tbl" by blast
  have tq: "''tq'' \<in> set ex_nodes" by (simp add: ex_nodes_def)
  from run_inference_total[OF run tq, of ex_infer 3]
  obtain st where st: "run_inference ex_infer tbl ex_nodes ex_se 3 = Inr st" by blast
  from network_structure_fixed[OF st] run st show ?thesis by blast
qed

end
